theory Spec2Isabelle
  imports Main
begin

section \<open>Strings, digits and decimal parsing\<close>

text \<open>
  Go strings are byte sequences; they are modelled as \<open>string\<close> (a list of 8-bit
  characters). The class \<open>\d\<close> of Go's regexp package is the ASCII digits, and \<open>\D\<close>
  is every other rune. Every byte of a multi-byte or invalid UTF-8 sequence is at least
  128, so on bytes a maximal run of \<open>\D\<close> is a maximal run of non-digit bytes.
\<close>

definition is_digit :: "char \<Rightarrow> bool" where
  "is_digit c = (c \<in> set ''0123456789'')"

definition digit_val :: "char \<Rightarrow> nat" where
  "digit_val c = of_char c - 48"

datatype num_error = ErrSyntax | ErrRange

text \<open>
  \<open>strconv.ParseUint(s, 10, 32)\<close>: the digits are accumulated left to right; a
  character that is not a digit is a syntax error, a value above \<open>2^32 - 1\<close> a range
  error, reported where the loop meets it.
\<close>

definition maxVal32 :: nat where
  "maxVal32 = 4294967295"

fun ParseUint_loop :: "nat \<Rightarrow> string \<Rightarrow> num_error + nat" where
  "ParseUint_loop n [] = Inr n"
| "ParseUint_loop n (c # cs) =
     (if \<not> is_digit c then Inl ErrSyntax
      else if n * 10 + digit_val c > maxVal32 then Inl ErrRange
      else ParseUint_loop (n * 10 + digit_val c) cs)"

definition ParseUint :: "string \<Rightarrow> num_error + nat" where
  "ParseUint s = (if s = [] then Inl ErrSyntax else ParseUint_loop 0 s)"

text \<open>
  \<open>strconv.ParseInt(s, 10, 32)\<close>: an optional sign, then \<open>ParseUint\<close>; the result
  must lie in the signed 32-bit range (cutoff \<open>2^31\<close>).
\<close>

definition cutoff32 :: nat where
  "cutoff32 = 2147483648"

definition ParseInt :: "string \<Rightarrow> num_error + int" where
  "ParseInt s =
     (case s of
        [] \<Rightarrow> Inl ErrSyntax
      | c # cs \<Rightarrow>
          (let neg = (c = CHR ''-'');
               s1 = (if c = CHR ''+'' \<or> c = CHR ''-'' then cs else s)
           in case ParseUint s1 of
                Inl ErrSyntax \<Rightarrow> Inl ErrSyntax
              | Inl ErrRange \<Rightarrow> Inl ErrRange
              | Inr un \<Rightarrow>
                  if \<not> neg \<and> un \<ge> cutoff32 then Inl ErrRange
                  else if neg \<and> un > cutoff32 then Inl ErrRange
                  else Inr (if neg then - int un else int un)))"

section \<open>The version pattern\<close>

text \<open>
  \<open>semverRE\<close> is
  \<^verbatim>\<open>^\D*(?P<first>(\d+))(\.(?P<second>\d+))?(\.(?P<third>\d+))?(\.(?P<fourth>\d+))?(\.(?P<fifth>\d+))?$\<close>.
  It has ten groups; with the whole match at index 0, \<open>SubexpNames\<close> is the list below.
\<close>

definition semverRE_SubexpNames :: "string list" where
  "semverRE_SubexpNames =
     ['''', ''first'', '''', '''', ''second'', '''', ''third'', '''', ''fourth'', '''', ''fifth'']"

text \<open>
  One optional group \<^verbatim>\<open>(\.(\d+))?\<close> at the front of \<open>r\<close>: the captured digits (empty
  when the group does not take part) and the rest of the input. The group is greedy, so
  it takes part whenever a dot and a digit follow, and then its digits are the whole run.
\<close>

definition opt_dot_num :: "string \<Rightarrow> string \<times> string" where
  "opt_dot_num r =
     (case r of
        [] \<Rightarrow> ([], [])
      | c # r' \<Rightarrow>
          if c = CHR ''.'' \<and> takeWhile is_digit r' \<noteq> []
          then (takeWhile is_digit r', dropWhile is_digit r')
          else ([], r))"

definition with_dot :: "string \<Rightarrow> string" where
  "with_dot g = (if g = [] then [] else CHR ''.'' # g)"

text \<open>
  \<open>semverRE.FindStringSubmatch\<close>: the empty list (Go's nil) when the pattern does not
  match, otherwise the whole match followed by the ten groups, a group that took no part
  being the empty string. The pattern is anchored at both ends, so the whole match is
  the input, and what is left after the fifth component must be empty.
\<close>

definition semverRE_FindStringSubmatch :: "string \<Rightarrow> string list" where
  "semverRE_FindStringSubmatch s =
     (let r0 = dropWhile (\<lambda>c. \<not> is_digit c) s;
          g1 = takeWhile is_digit r0;
          r1 = dropWhile is_digit r0
      in if g1 = [] then []
         else
           (let (g2, r2) = opt_dot_num r1;
                (g3, r3) = opt_dot_num r2;
                (g4, r4) = opt_dot_num r3;
                (g5, r5) = opt_dot_num r4
            in if r5 \<noteq> [] then []
               else [s, g1, g1, with_dot g2, g2, with_dot g3, g3,
                     with_dot g4, g4, with_dot g5, g5]))"

section \<open>Errors\<close>

datatype error =
    SemverParseError string num_error
  | SemverNegativeError string
  | SemverCompareError "error option" "error option"
  | RepoParseError string "string list"
  | RetrieveError string string
  | ReadBodyError string string
  | BodyParseError string string
  | WalkError string
  | NilDereference
  | ConfigUrlAndRepo
  | ConfigRepoWithoutTag

section \<open>mkSemver and compareSemver\<close>

text \<open>
  The loop of \<open>mkSemver\<close> over \<open>names\<close> with its index: a named group that is present
  and not empty is parsed and appended; the first failure returns the vector built so
  far together with the error.
\<close>

fun mkSemver_loop ::
  "string \<Rightarrow> string list \<Rightarrow> (nat \<times> string) list \<Rightarrow> int list \<Rightarrow> int list \<times> error option" where
  "mkSemver_loop s m [] out = (out, None)"
| "mkSemver_loop s m ((i, n) # rest) out =
     (if n \<noteq> [] \<and> length m > i \<and> m ! i \<noteq> [] then
        (case ParseInt (m ! i) of
           Inl err \<Rightarrow> (out, Some (SemverParseError s err))
         | Inr part \<Rightarrow>
             if part < 0 then (out, Some (SemverNegativeError s))
             else mkSemver_loop s m rest (out @ [part]))
      else mkSemver_loop s m rest out)"

definition mkSemver :: "string \<Rightarrow> int list \<times> error option" where
  "mkSemver s =
     mkSemver_loop s (semverRE_FindStringSubmatch s) (enumerate 0 semverRE_SubexpNames) []"

text \<open>
  The loop of \<open>compareSemver\<close>: \<open>for i, a := range as\<close>, with \<open>b\<close> zero once \<open>i\<close> is
  past the end of \<open>bs\<close>.
\<close>

fun compare_loop :: "nat \<Rightarrow> int list \<Rightarrow> int list \<Rightarrow> int" where
  "compare_loop i [] bs = 0"
| "compare_loop i (a # as) bs =
     (let b = (if i \<ge> length bs then 0 else bs ! i)
      in if a > b then 1
         else if a < b then - 1
         else compare_loop (Suc i) as bs)"

definition compare_vectors :: "int list \<Rightarrow> int list \<Rightarrow> int" where
  "compare_vectors xs ys =
     (if length xs \<ge> length ys then compare_loop 0 xs ys else compare_loop 0 ys xs)"

definition compareSemver :: "string \<Rightarrow> string \<Rightarrow> error + int" where
  "compareSemver x y =
     (let (xs, err1) = mkSemver x;
          (ys, err2) = mkSemver y
      in if err1 \<noteq> None \<or> err2 \<noteq> None then Inl (SemverCompareError err1 err2)
         else Inr (compare_vectors xs ys))"

section \<open>Repository references\<close>

text \<open>
  \<open>repoRE\<close> is \<^verbatim>\<open>^github.com/([^/]*)/([^/]*)\<close>. Its dot is not escaped, so it stands
  for one rune other than a newline. The width in bytes of the rune at the front of a
  string is what \<open>utf8.DecodeRuneInString\<close> gives: a well-formed UTF-8 sequence counts
  whole, any other byte counts as one.
\<close>

definition cont_byte :: "char \<Rightarrow> bool" where
  "cont_byte c = (128 \<le> (of_char c :: nat) \<and> (of_char c :: nat) \<le> 191)"

definition second_byte_ok :: "nat \<Rightarrow> char \<Rightarrow> bool" where
  "second_byte_ok x c =
     (let lo = (if x = 224 then 160 else if x = 240 then 144 else 128);
          hi = (if x = 237 then 159 else if x = 244 then 143 else 191)
      in lo \<le> (of_char c :: nat) \<and> (of_char c :: nat) \<le> hi)"

definition rune_width :: "string \<Rightarrow> nat" where
  "rune_width s =
     (case s of
        [] \<Rightarrow> 0
      | b0 # r \<Rightarrow>
          (let x = (of_char b0 :: nat)
           in if 194 \<le> x \<and> x \<le> 223 then
                (case r of b1 # _ \<Rightarrow> if cont_byte b1 then 2 else 1 | _ \<Rightarrow> 1)
              else if 224 \<le> x \<and> x \<le> 239 then
                (case r of
                   b1 # b2 # _ \<Rightarrow> if second_byte_ok x b1 \<and> cont_byte b2 then 3 else 1
                 | _ \<Rightarrow> 1)
              else if 240 \<le> x \<and> x \<le> 244 then
                (case r of
                   b1 # b2 # b3 # _ \<Rightarrow>
                     if second_byte_ok x b1 \<and> cont_byte b2 \<and> cont_byte b3 then 4 else 1
                 | _ \<Rightarrow> 1)
              else 1))"

fun strip_prefix :: "string \<Rightarrow> string \<Rightarrow> string option" where
  "strip_prefix [] s = Some s"
| "strip_prefix (p # ps) [] = None"
| "strip_prefix (p # ps) (c # cs) = (if p = c then strip_prefix ps cs else None)"

definition not_slash :: "char \<Rightarrow> bool" where
  "not_slash c = (c \<noteq> CHR ''/'')"

text \<open>
  \<open>repoRE.FindStringSubmatch\<close>: the empty list when there is no match, otherwise the
  matched prefix and the two groups. Each \<^verbatim>\<open>[^/]*\<close> is greedy and is followed by a
  slash or by nothing, so it takes the whole run of characters up to the next slash.
\<close>

definition repoRE_FindStringSubmatch :: "string \<Rightarrow> string list" where
  "repoRE_FindStringSubmatch s =
     (case strip_prefix ''github'' s of
        None \<Rightarrow> []
      | Some r \<Rightarrow>
          if r = [] \<or> hd r = CHR 0x0A then []
          else
            (let w = rune_width r
             in case strip_prefix ''com/'' (drop w r) of
                  None \<Rightarrow> []
                | Some r1 \<Rightarrow>
                    (let owner = takeWhile not_slash r1
                     in case dropWhile not_slash r1 of
                          [] \<Rightarrow> []
                        | c # r2 \<Rightarrow>
                            (let project = takeWhile not_slash r2
                             in [''github'' @ take w r @ ''com/'' @ owner @ ''/'' @ project,
                                 owner, project]))))"

definition parseRepo :: "string \<Rightarrow> error + (string \<times> string)" where
  "parseRepo repo =
     (let match = repoRE_FindStringSubmatch repo
      in if length match \<noteq> 3 then Inl (RepoParseError repo match)
         else Inr (match ! 1, match ! 2))"

section \<open>The release lookup\<close>

text \<open>
  The body of a response is either not JSON at all or a JSON value. What \<open>http.Get\<close>
  and \<open>ioutil.ReadAll\<close> give for a request is a parameter of the model.
\<close>

datatype json =
    JNull
  | JBool bool
  | JNumber string
  | JString string
  | JArray "json list"
  | JObject "(string \<times> json) list"

datatype body = NotJSON string | JSON json

datatype http_result = GetFailed string | ReadFailed string | Body body

text \<open>
  \<open>json.Unmarshal(bodyBs, &gitObj)\<close> with \<open>gitObj\<close> a \<open>map[string]*json.RawMessage\<close>:
  an object fills the map member by member, a later duplicate key replacing an earlier
  one, and a member whose value is \<open>null\<close> stores the nil pointer; the literal \<open>null\<close>
  leaves the map nil; anything else is an error. Reading a key gives the nil pointer
  (\<open>None\<close>) both when the key is missing and when nil was stored.
\<close>

definition store_member :: "string \<times> json \<Rightarrow> (string \<rightharpoonup> json) \<Rightarrow> (string \<rightharpoonup> json)" where
  "store_member kv m =
     (case kv of (k, v) \<Rightarrow> (case v of JNull \<Rightarrow> m(k := None) | _ \<Rightarrow> m(k \<mapsto> v)))"

definition Unmarshal_map :: "body \<Rightarrow> string + (string \<rightharpoonup> json)" where
  "Unmarshal_map b =
     (case b of
        NotJSON raw \<Rightarrow> Inl ''invalid character''
      | JSON j \<Rightarrow>
          (case j of
             JNull \<Rightarrow> Inr Map.empty
           | JObject members \<Rightarrow> Inr (fold store_member members Map.empty)
           | _ \<Rightarrow> Inl ''cannot unmarshal into Go value of type map''))"

text \<open>
  \<open>json.Unmarshal(*gitObj["name"], tag)\<close>: \<open>tag\<close> is passed by value, not by pointer.
  The call returns an \<open>InvalidUnmarshalError\<close> and cannot assign the caller's
  variable, which keeps the value it had.
\<close>

definition Unmarshal_by_value :: "json \<Rightarrow> string \<Rightarrow> string \<times> string option" where
  "Unmarshal_by_value raw tag = (tag, Some ''json: Unmarshal(non-pointer string)'')"

section \<open>Entries, messages and the trace of effects\<close>

record SourceEntry =
  Repo :: string
  Tag :: string
  URL :: string

record Config =
  Sources :: "SourceEntry list"

text \<open>
  The four messages of \<open>checkEntry\<close>, each with the arguments of its format string:
  the plain raw-URL message, the yellow one, the red one and the green one.
\<close>

datatype message =
    RawURL string
  | Unverifiable string
  | Outdated string string string
  | UpToDate string

text \<open>
  What a run does besides returning: the requests sent, and the comparisons made.
  The answer to a request may depend on everything that happened before it.
\<close>

datatype event = Lookup string | Compare string string

type_synonym net = "event list \<Rightarrow> string \<Rightarrow> http_result"

definition release_url :: "string \<Rightarrow> string \<Rightarrow> string" where
  "release_url owner gitrepo =
     ''https://api.github.com/repos/'' @ owner @ ''/'' @ gitrepo @ ''/releases/latest''"

definition checkEntry :: "net \<Rightarrow> event list \<Rightarrow> SourceEntry \<Rightarrow> (error + message) \<times> event list" where
  "checkEntry get tr e =
     (if length (URL e) \<noteq> 0 then (Inr (RawURL (URL e)), tr)
      else
        (case parseRepo (Repo e) of
           Inl err \<Rightarrow> (Inl err, tr)
         | Inr (owner, gitrepo) \<Rightarrow>
             (let url = release_url owner gitrepo;
                  tr1 = tr @ [Lookup url]
              in case get tr url of
                   GetFailed x \<Rightarrow> (Inl (RetrieveError (Repo e) x), tr1)
                 | ReadFailed x \<Rightarrow> (Inl (ReadBodyError (URL e) x), tr1)
                 | Body bodyBs \<Rightarrow>
                     (case Unmarshal_map bodyBs of
                        Inl x \<Rightarrow> (Inl (BodyParseError (URL e) x), tr1)
                      | Inr gitObj \<Rightarrow>
                          (case gitObj ''name'' of
                             None \<Rightarrow> (Inr (Unverifiable (Repo e)), tr1)
                           | Some raw \<Rightarrow>
                               (let (tag, err) = Unmarshal_by_value raw [];
                                    tr2 = tr1 @ [Compare (Tag e) tag]
                                in case compareSemver (Tag e) tag of
                                     Inl err \<Rightarrow> (Inl err, tr2)
                                   | Inr rel \<Rightarrow>
                                       if rel < 0
                                       then (Inr (Outdated (Repo e) (Tag e) tag), tr2)
                                       else (Inr (UpToDate (Repo e)), tr2)))))))"

fun checkNewer_loop ::
  "net \<Rightarrow> event list \<Rightarrow> SourceEntry list \<Rightarrow> message list
     \<Rightarrow> (message list \<times> error option) \<times> event list" where
  "checkNewer_loop get tr [] msgs = ((msgs, None), tr)"
| "checkNewer_loop get tr (e # es) msgs =
     (case checkEntry get tr e of
        (Inl err, tr') \<Rightarrow> ((msgs, Some err), tr')
      | (Inr m, tr') \<Rightarrow> checkNewer_loop get tr' es (msgs @ [m]))"

definition checkNewer :: "net \<Rightarrow> event list \<Rightarrow> Config \<Rightarrow> (message list \<times> error option) \<times> event list" where
  "checkNewer get tr config = checkNewer_loop get tr (Sources config) []"

section \<open>Validation of a configuration\<close>

fun validateConfig_loop :: "SourceEntry list \<Rightarrow> error option" where
  "validateConfig_loop [] = None"
| "validateConfig_loop (e # es) =
     (if length (URL e) \<noteq> 0 \<and> length (Repo e) \<noteq> 0 then Some ConfigUrlAndRepo
      else if length (Repo e) \<noteq> 0 \<and> length (Tag e) = 0 then Some ConfigRepoWithoutTag
      else validateConfig_loop es)"

definition validateConfig :: "Config \<Rightarrow> error option" where
  "validateConfig config = validateConfig_loop (Sources config)"

section \<open>The search for manifests\<close>

definition manifestName :: string where
  "manifestName = ''SOURCES''"

text \<open>\<open>strings.HasSuffix\<close>.\<close>

definition HasSuffix :: "string \<Rightarrow> string \<Rightarrow> bool" where
  "HasSuffix s suffix =
     (length s \<ge> length suffix \<and> drop (length s - length suffix) s = suffix)"

text \<open>
  \<open>filepath.Walk\<close> calls the visit function once for each path it reaches, with the
  file information (nil when \<open>Lstat\<close> failed) and the error it met there. A walk is
  modelled by the calls it makes, in order; \<open>Walk\<close> stops at the first call that
  returns an error and returns it.
\<close>

record visit_call =
  vpath :: string
  vinfo :: "bool option"
  verr :: "string option"

text \<open>
  The closure \<open>visit\<close>: the updated \<open>manifests\<close> and the error it returns, or the
  panic of calling \<open>IsDir\<close> on a nil \<open>FileInfo\<close>. The conjunction is evaluated left to
  right, so \<open>IsDir\<close> is called only on a path with the suffix.
\<close>

definition visit :: "string list \<Rightarrow> visit_call \<Rightarrow> error + (string list \<times> string option)" where
  "visit manifests v =
     (if HasSuffix (vpath v) manifestName then
        (case vinfo v of
           None \<Rightarrow> Inl NilDereference
         | Some isDir \<Rightarrow>
             Inr (if \<not> isDir then manifests @ [vpath v] else manifests, verr v))
      else Inr (manifests, verr v))"

fun walk :: "visit_call list \<Rightarrow> string list \<Rightarrow> error + string list" where
  "walk [] manifests = Inr manifests"
| "walk (v # vs) manifests =
     (case visit manifests v of
        Inl p \<Rightarrow> Inl p
      | Inr (manifests', err) \<Rightarrow>
          (case err of
             Some x \<Rightarrow> Inl (WalkError x)
           | None \<Rightarrow> walk vs manifests'))"

text \<open>\<open>searchForManifests\<close>: \<open>Inl\<close> is a panic, \<open>Inr\<close> the list returned.\<close>

definition searchForManifests :: "visit_call list \<Rightarrow> error + string list" where
  "searchForManifests calls = walk calls []"

text \<open>
  \<open>filepath.Base\<close> on a system whose separator is the slash: the last element of the
  path, trailing slashes removed first.
\<close>

definition Base :: "string \<Rightarrow> string" where
  "Base p =
     (if p = [] then ''.''
      else
        (let q = rev (dropWhile (\<lambda>c. c = CHR ''/'') (rev p));
             b = rev (takeWhile not_slash (rev q))
         in if b = [] then ''/'' else b))"

section \<open>Notions used in the statements\<close>

text \<open>The decimal value of a string of digits, read left to right from \<open>n\<close>.\<close>

definition decimal_from :: "nat \<Rightarrow> string \<Rightarrow> nat" where
  "decimal_from n ds = foldl (\<lambda>n c. n * 10 + digit_val c) n ds"

text \<open>
  The comparison the specification describes: two vectors of the same length are compared
  component by component, the first difference deciding; \<open>pad_zero\<close> extends a vector
  with zeros on the right up to a length.
\<close>

definition pad_zero :: "nat \<Rightarrow> int list \<Rightarrow> int list" where
  "pad_zero n bs = bs @ replicate (n - length bs) 0"

fun lex_compare :: "int list \<Rightarrow> int list \<Rightarrow> int" where
  "lex_compare (a # as) (b # bs) =
     (if a > b then 1 else if a < b then - 1 else lex_compare as bs)"
| "lex_compare _ _ = 0"

text \<open>
  The strings the version pattern is written for: non-digits, then between one and
  five numbers separated by dots.
\<close>

definition dot_tail :: "string list \<Rightarrow> string" where
  "dot_tail ds = concat (map (\<lambda>d. CHR ''.'' # d) ds)"

definition dotted :: "string list \<Rightarrow> string" where
  "dotted ds = (case ds of [] \<Rightarrow> [] | d # rest \<Rightarrow> d @ dot_tail rest)"

definition is_number :: "string \<Rightarrow> bool" where
  "is_number d = (d \<noteq> [] \<and> list_all is_digit d)"

definition semver_shape :: "string \<Rightarrow> string \<Rightarrow> string list \<Rightarrow> bool" where
  "semver_shape s pre ds =
     (s = pre @ dotted ds \<and> list_all (\<lambda>c. \<not> is_digit c) pre \<and>
      ds \<noteq> [] \<and> length ds \<le> 5 \<and> list_all is_number ds)"

section \<open>Evaluation\<close>

lemmas semver_eval =
  mkSemver_def semverRE_FindStringSubmatch_def semverRE_SubexpNames_def opt_dot_num_def
  with_dot_def is_digit_def ParseInt_def ParseUint_def digit_val_def maxVal32_def
  cutoff32_def compareSemver_def compare_vectors_def Let_def

lemmas entry_eval =
  checkEntry_def parseRepo_def repoRE_FindStringSubmatch_def rune_width_def not_slash_def
  release_url_def Unmarshal_map_def store_member_def Unmarshal_by_value_def Let_def

section \<open>Decimal parsing\<close>

lemma decimal_from_Nil [simp]: "decimal_from n [] = n"
  by (simp add: decimal_from_def)

lemma decimal_from_Cons [simp]:
  "decimal_from n (c # cs) = decimal_from (n * 10 + digit_val c) cs"
  by (simp add: decimal_from_def)

lemma decimal_from_ge: "n \<le> decimal_from n ds"
proof (induction ds arbitrary: n)
  case Nil
  show ?case by simp
next
  case (Cons c cs)
  have "n \<le> n * 10 + digit_val c" by simp
  also have "\<dots> \<le> decimal_from (n * 10 + digit_val c) cs" by (rule Cons.IH)
  finally show ?case by simp
qed

lemma ParseUint_loop_digits:
  "list_all is_digit ds \<Longrightarrow> n \<le> maxVal32 \<Longrightarrow>
   ParseUint_loop n ds =
     (if decimal_from n ds \<le> maxVal32 then Inr (decimal_from n ds) else Inl ErrRange)"
proof (induction ds arbitrary: n)
  case Nil
  then show ?case by simp
next
  case (Cons c cs)
  from Cons.prems have c: "is_digit c" and cs: "list_all is_digit cs" by simp_all
  show ?case
  proof (cases "n * 10 + digit_val c > maxVal32")
    case True
    with decimal_from_ge [of "n * 10 + digit_val c" cs]
    have "\<not> decimal_from (n * 10 + digit_val c) cs \<le> maxVal32" by linarith
    with True c show ?thesis by simp
  next
    case False
    then have "n * 10 + digit_val c \<le> maxVal32" by simp
    from Cons.IH [OF cs this] False c show ?thesis by simp
  qed
qed

lemma is_digit_not_sign: "is_digit c \<Longrightarrow> c \<noteq> CHR ''+'' \<and> c \<noteq> CHR ''-''"
  by (auto simp: is_digit_def)

lemma ParseInt_digits:
  assumes "ds \<noteq> []" and "list_all is_digit ds"
  shows "ParseInt ds =
     (if decimal_from 0 ds < cutoff32 then Inr (int (decimal_from 0 ds)) else Inl ErrRange)"
proof -
  from assms obtain c cs where ds: "ds = c # cs" by (cases ds) auto
  with assms have "is_digit c" by simp
  then have sign: "c \<noteq> CHR ''+''" "c \<noteq> CHR ''-''" using is_digit_not_sign by auto
  have pu: "ParseUint ds =
     (if decimal_from 0 ds \<le> maxVal32 then Inr (decimal_from 0 ds) else Inl ErrRange)"
    using assms by (simp add: ParseUint_def ParseUint_loop_digits maxVal32_def)
  show ?thesis
    unfolding ParseInt_def ds list.case Let_def using sign pu [unfolded ds]
    by (auto simp: maxVal32_def cutoff32_def)
qed

lemma ParseInt_negative:
  "ParseInt x = Inr p \<Longrightarrow> p < 0 \<Longrightarrow> x \<noteq> [] \<and> hd x = CHR ''-''"
  by (auto simp: ParseInt_def Let_def split: list.splits sum.splits num_error.splits if_splits)


lemma mkSemver_loop_skip:
  "n = [] \<or> \<not> i < length m \<or> m ! i = [] \<Longrightarrow>
   mkSemver_loop s m ((i, n) # rest) out = mkSemver_loop s m rest out"
  by auto

lemma mkSemver_loop_take:
  "n \<noteq> [] \<Longrightarrow> i < length m \<Longrightarrow> m ! i \<noteq> [] \<Longrightarrow>
   mkSemver_loop s m ((i, n) # rest) out =
     (case ParseInt (m ! i) of
        Inl err \<Rightarrow> (out, Some (SemverParseError s err))
      | Inr part \<Rightarrow>
          if part < 0 then (out, Some (SemverNegativeError s))
          else mkSemver_loop s m rest (out @ [part]))"
  by simp

lemma mkSemver_loop_no_negative_error:
  assumes "\<And>i n. (i, n) \<in> set names \<Longrightarrow> n \<noteq> [] \<Longrightarrow> i < length m \<Longrightarrow> m ! i \<noteq> []
             \<Longrightarrow> hd (m ! i) \<noteq> CHR ''-''"
  shows "snd (mkSemver_loop s m names out) \<noteq> Some (SemverNegativeError t)"
  using assms
proof (induction names arbitrary: out)
  case Nil
  show ?case by simp
next
  case (Cons p names)
  obtain i n where p: "p = (i, n)" by (cases p)
  have rest: "snd (mkSemver_loop s m names out') \<noteq> Some (SemverNegativeError t)" for out'
  proof (rule Cons.IH)
    fix j k
    assume "(j, k) \<in> set names" "k \<noteq> []" "j < length m" "m ! j \<noteq> []"
    then show "hd (m ! j) \<noteq> CHR ''-''" using Cons.prems [of j k] by simp
  qed
  show ?case
  proof (cases "n \<noteq> [] \<and> i < length m \<and> m ! i \<noteq> []")
    case False
    then have "mkSemver_loop s m (p # names) out = mkSemver_loop s m names out"
      unfolding p by (intro mkSemver_loop_skip) blast
    then show ?thesis using rest by simp
  next
    case True
    then have nd: "hd (m ! i) \<noteq> CHR ''-''" using Cons.prems [of i n] by (simp add: p)
    from True have step: "mkSemver_loop s m (p # names) out =
      (case ParseInt (m ! i) of
         Inl err \<Rightarrow> (out, Some (SemverParseError s err))
       | Inr part \<Rightarrow>
           if part < 0 then (out, Some (SemverNegativeError s))
           else mkSemver_loop s m names (out @ [part]))"
      unfolding p by (intro mkSemver_loop_take) simp_all
    show ?thesis
    proof (cases "ParseInt (m ! i)")
      case (Inl err)
      then show ?thesis by (simp add: step)
    next
      case (Inr part)
      with nd ParseInt_negative [of "m ! i" part] have "\<not> part < 0" by auto
      with Inr rest show ?thesis by (simp add: step)
    qed
  qed
qed

lemma mkSemver_loop_nonneg:
  "list_all (\<lambda>x. 0 \<le> x) out \<Longrightarrow> list_all (\<lambda>x. 0 \<le> x) (fst (mkSemver_loop s m names out))"
proof (induction names arbitrary: out)
  case Nil
  then show ?case by simp
next
  case (Cons p names)
  obtain i n where p: "p = (i, n)" by (cases p)
  show ?case
  proof (cases "n \<noteq> [] \<and> i < length m \<and> m ! i \<noteq> []")
    case False
    then have "mkSemver_loop s m (p # names) out = mkSemver_loop s m names out"
      unfolding p by (intro mkSemver_loop_skip) blast
    then show ?thesis using Cons by simp
  next
    case True
    then have step: "mkSemver_loop s m (p # names) out =
      (case ParseInt (m ! i) of
         Inl err \<Rightarrow> (out, Some (SemverParseError s err))
       | Inr part \<Rightarrow>
           if part < 0 then (out, Some (SemverNegativeError s))
           else mkSemver_loop s m names (out @ [part]))"
      unfolding p by (intro mkSemver_loop_take) simp_all
    show ?thesis
    proof (cases "ParseInt (m ! i)")
      case (Inl err)
      with Cons.prems show ?thesis by (simp add: step)
    next
      case (Inr part)
      show ?thesis
      proof (cases "part < 0")
        case True
        with Inr Cons.prems show ?thesis by (simp add: step)
      next
        case False
        with Cons.prems have "list_all (\<lambda>x. 0 \<le> x) (out @ [part])" by simp
        from Cons.IH [OF this] False Inr show ?thesis by (simp add: step)
      qed
    qed
  qed
qed

lemma mkSemver_nonneg: "list_all (\<lambda>x. 0 \<le> x) (fst (mkSemver s))"
  unfolding mkSemver_def by (rule mkSemver_loop_nonneg) simp

lemma opt_dot_num_digits: "list_all is_digit (fst (opt_dot_num r))"
  by (cases r) (auto simp: opt_dot_num_def list_all_iff dest: set_takeWhileD)

lemma takeWhile_digits: "list_all is_digit (takeWhile is_digit r)"
  by (auto simp: list_all_iff dest: set_takeWhileD)

lemma semverRE_named_groups_digits:
  assumes "(i, n) \<in> set (enumerate 0 semverRE_SubexpNames)" and "n \<noteq> []"
    and "i < length (semverRE_FindStringSubmatch s)"
  shows "list_all is_digit (semverRE_FindStringSubmatch s ! i)"
proof -
  from assms(1,2) have i: "i = 1 \<or> i = 4 \<or> i = 6 \<or> i = 8 \<or> i = 10"
    by (auto simp: semverRE_SubexpNames_def)
  obtain g2 r2 where 2: "opt_dot_num (dropWhile is_digit (dropWhile (\<lambda>c. \<not> is_digit c) s)) = (g2, r2)"
    by (cases "opt_dot_num (dropWhile is_digit (dropWhile (\<lambda>c. \<not> is_digit c) s))")
  obtain g3 r3 where 3: "opt_dot_num r2 = (g3, r3)" by (cases "opt_dot_num r2")
  obtain g4 r4 where 4: "opt_dot_num r3 = (g4, r4)" by (cases "opt_dot_num r3")
  obtain g5 r5 where 5: "opt_dot_num r4 = (g5, r5)" by (cases "opt_dot_num r4")
  have d: "list_all is_digit g2" "list_all is_digit g3" "list_all is_digit g4"
    "list_all is_digit g5"
    using opt_dot_num_digits [of "dropWhile is_digit (dropWhile (\<lambda>c. \<not> is_digit c) s)"]
      opt_dot_num_digits [of r2] opt_dot_num_digits [of r3] opt_dot_num_digits [of r4]
    by (simp_all add: 2 3 4 5)
  from assms(3) i d show ?thesis
    by (auto simp: semverRE_FindStringSubmatch_def Let_def 2 3 4 5 takeWhile_digits
        split: if_splits)
qed

lemma digits_hd_not_minus: "list_all is_digit g \<Longrightarrow> g \<noteq> [] \<Longrightarrow> hd g \<noteq> CHR ''-''"
  by (cases g) (auto simp: is_digit_def)

text \<open>
  C10: the branch of \<open>mkSemver\<close> that reports a component below zero is never taken:
  whatever the input, \<open>mkSemver\<close> does not return that error. A named group of the
  pattern holds digits only, so what \<open>ParseInt\<close> returns for it is never negative.
\<close>

theorem mkSemver_negative_branch_unreachable:
  "snd (mkSemver s) \<noteq> Some (SemverNegativeError t)"
  unfolding mkSemver_def
proof (rule mkSemver_loop_no_negative_error)
  fix i n
  assume "(i, n) \<in> set (enumerate 0 semverRE_SubexpNames)" "n \<noteq> []"
    "i < length (semverRE_FindStringSubmatch s)" "semverRE_FindStringSubmatch s ! i \<noteq> []"
  then show "hd (semverRE_FindStringSubmatch s ! i) \<noteq> CHR ''-''"
    using semverRE_named_groups_digits [of i n s] digits_hd_not_minus by blast
qed

theorem mkSemver_negative_branch_unreachable_witness:
  "snd (mkSemver ''1.-2'') \<noteq> Some (SemverNegativeError ''1.-2'')"
  by (rule mkSemver_negative_branch_unreachable)

section \<open>Versions\<close>

lemma mkSemver_loop_no_match: "mkSemver_loop s [] names out = (out, None)"
  by (induction names arbitrary: out) auto

lemma mkSemver_no_digit:
  "\<forall>c\<in>set s. \<not> is_digit c \<Longrightarrow> mkSemver s = ([], None)"
proof -
  assume "\<forall>c\<in>set s. \<not> is_digit c"
  then have dw: "dropWhile (\<lambda>c. \<not> is_digit c) s = []" by simp
  have "semverRE_FindStringSubmatch s = []"
    unfolding semverRE_FindStringSubmatch_def dw by simp
  then show ?thesis by (simp add: mkSemver_def mkSemver_loop_no_match)
qed

text \<open>
  C3, as amended: \<open>v2.3\<close> gives the vector 2, 3; \<open>no-digits-here\<close> and \<open>1.-2\<close> do
  not match the pattern and give the empty vector with no error, as does every string
  without a digit.
\<close>

theorem mkSemver_examples_and_no_digit:
  "mkSemver ''v2.3'' = ([2, 3], None) \<and>
   mkSemver ''no-digits-here'' = ([], None) \<and>
   mkSemver ''1.-2'' = ([], None) \<and>
   (\<forall>s. (\<forall>c\<in>set s. \<not> is_digit c) \<longrightarrow> mkSemver s = ([], None))"
proof -
  have 1: "mkSemver ''v2.3'' = ([2, 3], None)" by (simp add: semver_eval)
  have 2: "mkSemver ''no-digits-here'' = ([], None)" by (simp add: semver_eval)
  have 3: "mkSemver ''1.-2'' = ([], None)" by (simp add: semver_eval)
  from 1 2 3 mkSemver_no_digit show ?thesis by blast
qed

theorem mkSemver_examples_and_no_digit_witness:
  "mkSemver ''release'' = ([], None)"
proof -
  have "\<forall>c\<in>set ''release''. \<not> is_digit c" by (simp add: is_digit_def)
  with mkSemver_examples_and_no_digit show ?thesis by blast
qed

text \<open>
  Neither \<open>no-digits-here\<close> nor \<open>1.-2\<close> makes \<open>mkSemver\<close> fail.
\<close>

theorem mkSemver_no_error_counterexample:
  "snd (mkSemver ''no-digits-here'') = None \<and> snd (mkSemver ''1.-2'') = None"
  by (simp add: semver_eval)

lemma dot_tail_Nil [simp]: "dot_tail [] = []"
  by (simp add: dot_tail_def)

lemma dot_tail_Cons: "dot_tail (d # ds) = CHR ''.'' # d @ dot_tail ds"
  by (simp add: dot_tail_def)

lemma dot_tail_no_digit: "dot_tail ds = [] \<or> \<not> is_digit (hd (dot_tail ds))"
  by (cases ds) (simp_all add: is_digit_def dot_tail_Cons)

lemma number_then_rest:
  assumes "is_number d" and "rest = [] \<or> \<not> is_digit (hd rest)"
  shows "takeWhile is_digit (d @ rest) = d" and "dropWhile is_digit (d @ rest) = rest"
proof -
  from assms(1) have d: "\<forall>c\<in>set d. is_digit c" by (simp add: is_number_def list_all_iff)
  from assms(2) have r: "takeWhile is_digit rest = []" "dropWhile is_digit rest = rest"
    by (cases rest; simp)+
  from d r show "takeWhile is_digit (d @ rest) = d" by (simp add: takeWhile_append2)
  from d r show "dropWhile is_digit (d @ rest) = rest" by (simp add: dropWhile_append2)
qed

lemma prefix_then_number:
  assumes "list_all (\<lambda>c. \<not> is_digit c) pre" and "is_number d"
  shows "dropWhile (\<lambda>c. \<not> is_digit c) (pre @ d @ rest) = d @ rest"
proof -
  from assms(2) obtain c cs where d: "d = c # cs" and c: "is_digit c"
    by (cases d) (auto simp: is_number_def)
  from assms(1) have "dropWhile (\<lambda>c. \<not> is_digit c) (pre @ d @ rest)
      = dropWhile (\<lambda>c. \<not> is_digit c) (d @ rest)"
    by (simp add: dropWhile_append2 list_all_iff)
  with d c show ?thesis by simp
qed

lemma opt_dot_num_Nil: "opt_dot_num [] = ([], [])"
  by (simp add: opt_dot_num_def)

lemma opt_dot_num_dot_tail:
  assumes "is_number d"
  shows "opt_dot_num (dot_tail (d # ds)) = (d, dot_tail ds)"
proof -
  from assms have ne: "d \<noteq> []" by (simp add: is_number_def)
  from number_then_rest [OF assms dot_tail_no_digit [of ds]] ne show ?thesis
    by (simp add: opt_dot_num_def dot_tail_Cons)
qed

lemma ParseInt_number:
  "is_number d \<Longrightarrow> decimal_from 0 d < cutoff32 \<Longrightarrow> ParseInt d = Inr (int (decimal_from 0 d))"
  by (simp add: is_number_def ParseInt_digits)

lemma with_dot_Nil: "with_dot [] = []"
  by (simp add: with_dot_def)

lemma with_dot_number: "is_number d \<Longrightarrow> with_dot d = CHR ''.'' # d"
  by (simp add: with_dot_def is_number_def)

lemma rest_cases:
  assumes "length (rest :: 'a list) \<le> 4"
  obtains "rest = []" | a where "rest = [a]" | a b where "rest = [a, b]"
    | a b c where "rest = [a, b, c]" | a b c d where "rest = [a, b, c, d]"
  using assms
  by (cases rest rule: list.exhaust; simp; rename_tac r1; case_tac r1; simp;
      rename_tac r2; case_tac r2; simp; rename_tac r3; case_tac r3; simp)

text \<open>
  The pattern matches exactly the strings of the shape above, and the named groups are
  then the numbers in order.
\<close>

lemma semverRE_match_shape:
  assumes "semver_shape s pre (d1 # rest)"
  shows "semverRE_FindStringSubmatch s =
    (let g = (\<lambda>k. if k < length rest then rest ! k else []) in
      [s, d1, d1, with_dot (g 0), g 0, with_dot (g 1), g 1,
       with_dot (g 2), g 2, with_dot (g 3), g 3])"
proof -
  from assms have s: "s = pre @ d1 @ dot_tail rest"
    and pre: "list_all (\<lambda>c. \<not> is_digit c) pre"
    and d1: "is_number d1" and rest: "list_all is_number rest" and len: "length rest \<le> 4"
    by (simp_all add: semver_shape_def dotted_def)
  have r0: "dropWhile (\<lambda>c. \<not> is_digit c) s = d1 @ dot_tail rest"
    unfolding s by (rule prefix_then_number [OF pre d1])
  note g1 = number_then_rest [OF d1 dot_tail_no_digit [of rest]]
  from d1 have ne: "d1 \<noteq> []" by (simp add: is_number_def)
  from len show ?thesis
  proof (cases rest rule: rest_cases)
    case 1
    then show ?thesis
      unfolding semverRE_FindStringSubmatch_def Let_def r0 g1
      by (simp add: ne opt_dot_num_Nil with_dot_Nil)
  next
    case (2 a)
    with rest show ?thesis
      unfolding semverRE_FindStringSubmatch_def Let_def r0 g1
      by (simp add: ne opt_dot_num_dot_tail opt_dot_num_Nil with_dot_Nil with_dot_number)
  next
    case (3 a b)
    with rest show ?thesis
      unfolding semverRE_FindStringSubmatch_def Let_def r0 g1
      by (simp add: ne opt_dot_num_dot_tail opt_dot_num_Nil with_dot_Nil with_dot_number)
  next
    case (4 a b c)
    with rest show ?thesis
      unfolding semverRE_FindStringSubmatch_def Let_def r0 g1
      by (simp add: ne opt_dot_num_dot_tail opt_dot_num_Nil with_dot_Nil with_dot_number)
  next
    case (5 a b c d)
    with rest show ?thesis
      unfolding semverRE_FindStringSubmatch_def Let_def r0 g1
      by (simp add: ne opt_dot_num_dot_tail opt_dot_num_Nil with_dot_Nil with_dot_number)
  qed
qed

lemma mkSemver_shape:
  assumes "semver_shape s pre ds" and "list_all (\<lambda>d. decimal_from 0 d < cutoff32) ds"
  shows "mkSemver s = (map (\<lambda>d. int (decimal_from 0 d)) ds, None)"
proof -
  from assms(1) obtain d1 rest where ds: "ds = d1 # rest"
    by (cases ds) (auto simp: semver_shape_def)
  from assms(1) have num: "list_all is_number ds" and len: "length rest \<le> 4"
    by (simp_all add: semver_shape_def ds)
  note m = semverRE_match_shape [OF assms(1) [unfolded ds]]
  have ne: "d \<noteq> []" if "is_number d" for d using that by (simp add: is_number_def)
  from len show ?thesis
  proof (cases rest rule: rest_cases)
    case 1
    with num assms(2) show ?thesis
      unfolding mkSemver_def m ds
      by (simp add: semverRE_SubexpNames_def ParseInt_number ne with_dot_Nil)
  next
    case (2 a)
    with num assms(2) show ?thesis
      unfolding mkSemver_def m ds
      by (simp add: semverRE_SubexpNames_def ParseInt_number ne with_dot_Nil)
  next
    case (3 a b)
    with num assms(2) show ?thesis
      unfolding mkSemver_def m ds
      by (simp add: semverRE_SubexpNames_def ParseInt_number ne with_dot_Nil)
  next
    case (4 a b c)
    with num assms(2) show ?thesis
      unfolding mkSemver_def m ds
      by (simp add: semverRE_SubexpNames_def ParseInt_number ne with_dot_Nil)
  next
    case (5 a b c d)
    with num assms(2) show ?thesis
      unfolding mkSemver_def m ds
      by (simp add: semverRE_SubexpNames_def ParseInt_number ne with_dot_Nil)
  qed
qed

lemma opt_dot_num_split:
  assumes "opt_dot_num r = (g, r')"
  shows "r = with_dot g @ r' \<and> (g = [] \<or> is_number g)"
proof (cases r)
  case Nil
  with assms show ?thesis by (simp add: opt_dot_num_def with_dot_def)
next
  case (Cons c r1)
  show ?thesis
  proof (cases "c = CHR ''.'' \<and> takeWhile is_digit r1 \<noteq> []")
    case True
    with assms Cons have g: "g = takeWhile is_digit r1" and r': "r' = dropWhile is_digit r1"
      by (simp_all add: opt_dot_num_def)
    from True g have "is_number g" by (simp add: is_number_def takeWhile_digits)
    moreover from True g r' Cons have "r = with_dot g @ r'" by (simp add: with_dot_def)
    ultimately show ?thesis by simp
  next
    case False
    with assms Cons have "g = []" "r' = r" by (auto simp: opt_dot_num_def)
    then show ?thesis by (simp add: with_dot_def)
  qed
qed

lemma dot_tail_filter:
  "dot_tail (filter (\<lambda>g. g \<noteq> []) gs) = concat (map with_dot gs)"
  by (induction gs) (simp_all add: dot_tail_Cons with_dot_def)

lemma semverRE_match_gives_shape:
  assumes "semverRE_FindStringSubmatch s \<noteq> []"
  shows "\<exists>pre ds. semver_shape s pre ds"
proof -
  let ?pre = "takeWhile (\<lambda>c. \<not> is_digit c) s"
  let ?r0 = "dropWhile (\<lambda>c. \<not> is_digit c) s"
  let ?g1 = "takeWhile is_digit ?r0"
  let ?r1 = "dropWhile is_digit ?r0"
  obtain g2 r2 where 2: "opt_dot_num ?r1 = (g2, r2)" by (cases "opt_dot_num ?r1")
  obtain g3 r3 where 3: "opt_dot_num r2 = (g3, r3)" by (cases "opt_dot_num r2")
  obtain g4 r4 where 4: "opt_dot_num r3 = (g4, r4)" by (cases "opt_dot_num r3")
  obtain g5 r5 where 5: "opt_dot_num r4 = (g5, r5)" by (cases "opt_dot_num r4")
  from assms have g1: "?g1 \<noteq> []" and r5: "r5 = []"
    by (auto simp: semverRE_FindStringSubmatch_def Let_def 2 3 4 5 split: if_splits)
  note sp = opt_dot_num_split [OF 2] opt_dot_num_split [OF 3] opt_dot_num_split [OF 4]
    opt_dot_num_split [OF 5]
  let ?gs = "[g2, g3, g4, g5]"
  let ?ds = "?g1 # filter (\<lambda>g. g \<noteq> []) ?gs"
  have "s = ?pre @ ?r0" by simp
  also have "?r0 = ?g1 @ ?r1" by simp
  also have "?r1 = concat (map with_dot ?gs)" using sp r5 by simp
  finally have s: "s = ?pre @ dotted ?ds"
    unfolding dotted_def list.case dot_tail_filter .
  have pre: "list_all (\<lambda>c. \<not> is_digit c) ?pre"
    by (auto simp: list_all_iff dest: set_takeWhileD)
  have num: "list_all is_number ?ds"
    using g1 sp by (auto simp: is_number_def takeWhile_digits)
  have len: "length ?ds \<le> 5"
    using length_filter_le [of "\<lambda>g. g \<noteq> []" ?gs] by simp
  from s pre num len have "semver_shape s ?pre ?ds"
    unfolding semver_shape_def by blast
  then show ?thesis by blast
qed

lemma mkSemver_no_shape:
  assumes "\<nexists>pre ds. semver_shape s pre ds"
  shows "mkSemver s = ([], None)"
proof -
  from assms semverRE_match_gives_shape [of s] have "semverRE_FindStringSubmatch s = []"
    by blast
  then show ?thesis by (simp add: mkSemver_def mkSemver_loop_no_match)
qed

lemma dot_tail_chars:
  "list_all is_number ds \<Longrightarrow> list_all (\<lambda>c. is_digit c \<or> c = CHR ''.'') (dot_tail ds)"
  by (induction ds) (auto simp: dot_tail_Cons is_number_def list_all_iff)

lemma shape_chars:
  assumes "semver_shape s pre ds"
  shows "list_all (\<lambda>c. is_digit c \<or> c = CHR ''.'') (dropWhile (\<lambda>c. \<not> is_digit c) s)"
proof -
  from assms obtain d1 rest where ds: "ds = d1 # rest"
    by (cases ds) (auto simp: semver_shape_def)
  from assms have s: "s = pre @ d1 @ dot_tail rest"
    and pre: "list_all (\<lambda>c. \<not> is_digit c) pre"
    and d1: "is_number d1" and rest: "list_all is_number rest"
    by (simp_all add: semver_shape_def dotted_def ds)
  have "dropWhile (\<lambda>c. \<not> is_digit c) s = d1 @ dot_tail rest"
    unfolding s by (rule prefix_then_number [OF pre d1])
  with d1 dot_tail_chars [OF rest] show ?thesis
    by (auto simp: is_number_def list_all_iff)
qed

text \<open>
  C5, as amended: for a tag made of a run of non-digits followed by one to five
  numbers separated by dots and nothing more, each number below \<open>2^31\<close>,
  \<open>mkSemver\<close> returns those numbers in order and no error; for a tag that is not of
  this form, such as one with anything after the numbers, it returns the empty vector
  and no error.
\<close>

theorem mkSemver_full_match_only:
  "(\<forall>s pre ds. semver_shape s pre ds \<and> list_all (\<lambda>d. decimal_from 0 d < cutoff32) ds \<longrightarrow>
      mkSemver s = (map (\<lambda>d. int (decimal_from 0 d)) ds, None)) \<and>
   (\<forall>s. (\<nexists>pre ds. semver_shape s pre ds) \<longrightarrow> mkSemver s = ([], None))"
  using mkSemver_shape mkSemver_no_shape by blast

theorem mkSemver_full_match_only_witness:
  "mkSemver ''v1.2.3'' = ([1, 2, 3], None) \<and> mkSemver ''1.0.0-rc1'' = ([], None)"
proof -
  have shape: "semver_shape ''v1.2.3'' ''v'' [''1'', ''2'', ''3'']"
    by (simp add: semver_shape_def dotted_def dot_tail_def is_number_def is_digit_def)
  have small: "list_all (\<lambda>d. decimal_from 0 d < cutoff32) [''1'', ''2'', ''3'']"
    by (simp add: cutoff32_def digit_val_def)
  have none: "\<nexists>pre ds. semver_shape ''1.0.0-rc1'' pre ds"
  proof
    assume "\<exists>pre ds. semver_shape ''1.0.0-rc1'' pre ds"
    then obtain pre ds where "semver_shape ''1.0.0-rc1'' pre ds" by blast
    from shape_chars [OF this] show False by (simp add: is_digit_def)
  qed
  from mkSemver_full_match_only shape small
  have "mkSemver ''v1.2.3'' = (map (\<lambda>d. int (decimal_from 0 d)) [''1'', ''2'', ''3''], None)"
    by blast
  moreover from mkSemver_full_match_only none have "mkSemver ''1.0.0-rc1'' = ([], None)"
    by blast
  ultimately show ?thesis by (simp add: digit_val_def)
qed

text \<open>
  The pattern ends with \<open>$\<close>: a suffix or a sixth component makes the match fail and
  the result empty, and a component of \<open>2^31\<close> or more is an error.
\<close>

theorem mkSemver_trailing_content_counterexample:
  "is_digit (hd ''1.0.0-rc1'') \<and> mkSemver ''1.0.0-rc1'' = ([], None) \<and>
   is_digit (hd ''1.2.3.4.5.6'') \<and> mkSemver ''1.2.3.4.5.6'' = ([], None) \<and>
   is_digit (hd ''2147483648'') \<and>
   mkSemver ''2147483648'' = ([], Some (SemverParseError ''2147483648'' ErrRange))"
  by (simp add: semver_eval)

lemma pad_zero_Nil: "pad_zero (Suc n) [] = 0 # pad_zero n []"
  by (simp add: pad_zero_def)

lemma pad_zero_Cons: "pad_zero (Suc n) (b # bs) = b # pad_zero n bs"
  by (simp add: pad_zero_def)

lemma compare_loop_lex:
  "compare_loop i as bs = lex_compare as (pad_zero (length as) (drop i bs))"
proof (induction as arbitrary: i)
  case Nil
  show ?case by (cases "pad_zero (length []) (drop i bs)") simp_all
next
  case (Cons a as)
  show ?case
  proof (cases "i \<ge> length bs")
    case True
    then show ?thesis using Cons.IH [of "Suc i"] by (simp add: pad_zero_Nil)
  next
    case False
    then have "drop i bs = bs ! i # drop (Suc i) bs" by (simp add: Cons_nth_drop_Suc)
    then show ?thesis using False Cons.IH [of "Suc i"] by (simp add: pad_zero_Cons)
  qed
qed

lemma compare_vectors_padded:
  "compare_vectors xs ys =
     (if length xs \<ge> length ys then lex_compare xs (pad_zero (length xs) ys)
      else lex_compare ys (pad_zero (length ys) xs))"
  by (simp add: compare_vectors_def compare_loop_lex)

text \<open>
  C7: the four comparisons of the claim, and the rule behind them: the result of
  \<open>compareSemver\<close> is the component-wise comparison of the longer vector with the
  shorter one padded with zeros on the right to the same length.
\<close>

theorem compareSemver_zero_padding:
  "compareSemver ''1.2'' ''1.2.0'' = Inr 0 \<and>
   compareSemver ''1.2.0'' ''1.2'' = Inr 0 \<and>
   compareSemver ''v1.10.0'' ''v1.9.9'' = Inr 1 \<and>
   compareSemver ''release-2.0.1'' ''2.0.1'' = Inr 0 \<and>
   (\<forall>x y xs ys. mkSemver x = (xs, None) \<and> mkSemver y = (ys, None) \<longrightarrow>
      compareSemver x y =
        Inr (if length xs \<ge> length ys then lex_compare xs (pad_zero (length xs) ys)
             else lex_compare ys (pad_zero (length ys) xs)))"
proof -
  have 1: "compareSemver ''1.2'' ''1.2.0'' = Inr 0" by (simp add: semver_eval)
  have 2: "compareSemver ''1.2.0'' ''1.2'' = Inr 0" by (simp add: semver_eval)
  have 3: "compareSemver ''v1.10.0'' ''v1.9.9'' = Inr 1" by (simp add: semver_eval)
  have 4: "compareSemver ''release-2.0.1'' ''2.0.1'' = Inr 0" by (simp add: semver_eval)
  have 5: "compareSemver x y =
        Inr (if length xs \<ge> length ys then lex_compare xs (pad_zero (length xs) ys)
             else lex_compare ys (pad_zero (length ys) xs))"
    if "mkSemver x = (xs, None)" "mkSemver y = (ys, None)" for x y xs ys
    using that by (simp add: compareSemver_def compare_vectors_padded)
  from 1 2 3 4 5 show ?thesis by blast
qed

theorem compareSemver_zero_padding_witness:
  "compareSemver ''3.4'' ''3.4.0.1'' = Inr (lex_compare [3, 4, 0, 1] [3, 4, 0, 0])"
proof -
  have x: "mkSemver ''3.4'' = ([3, 4], None)" by (simp add: semver_eval)
  have y: "mkSemver ''3.4.0.1'' = ([3, 4, 0, 1], None)" by (simp add: semver_eval)
  from compareSemver_zero_padding x y
  have "compareSemver ''3.4'' ''3.4.0.1'' =
        Inr (if length [3, 4 :: int] \<ge> length [3, 4, 0, 1 :: int]
             then lex_compare [3, 4] (pad_zero (length [3, 4 :: int]) [3, 4, 0, 1])
             else lex_compare [3, 4, 0, 1] (pad_zero (length [3, 4, 0, 1 :: int]) [3, 4]))"
    by blast
  then show ?thesis by (simp add: pad_zero_def numeral_eq_Suc)
qed

text \<open>
  On vectors of equal length the comparison is antisymmetric, and a vector compares
  equal to itself; on vectors of different lengths both orders give the same result.
\<close>

lemma lex_compare_refl: "lex_compare xs xs = 0"
  by (induction xs) simp_all

lemma lex_compare_antisym:
  "length xs = length ys \<Longrightarrow> lex_compare xs ys = - lex_compare ys xs"
  by (induction xs ys rule: list_induct2) simp_all

lemma pad_zero_same_length: "length bs = n \<Longrightarrow> pad_zero n bs = bs"
  by (simp add: pad_zero_def)

lemma compare_vectors_refl: "compare_vectors xs xs = 0"
  by (simp add: compare_vectors_padded pad_zero_same_length lex_compare_refl)

lemma compare_vectors_equal_length:
  "length xs = length ys \<Longrightarrow> compare_vectors xs ys = - compare_vectors ys xs"
  using lex_compare_antisym [of xs ys]
  by (simp add: compare_vectors_padded pad_zero_same_length)

lemma compare_vectors_unequal_length:
  "length xs \<noteq> length ys \<Longrightarrow> compare_vectors xs ys = compare_vectors ys xs"
  by (simp add: compare_vectors_def)

lemma compareSemver_refl: "snd (mkSemver x) = None \<Longrightarrow> compareSemver x x = Inr 0"
  by (cases "mkSemver x") (simp add: compareSemver_def compare_vectors_refl)

text \<open>
  C2: the code at a pair of versions of different lengths. The longer vector is
  always the one walked, and the sign is not turned back when the operands were
  swapped: both orders give 1.
\<close>

theorem compareSemver_not_antisymmetric:
  "compareSemver ''1.2'' ''1.2.1'' = Inr 1 \<and> compareSemver ''1.2.1'' ''1.2'' = Inr 1"
  by (simp add: semver_eval)

theorem compareSemver_not_antisymmetric_witness:
  "compareSemver ''1.2'' ''1.2.1'' = compareSemver ''1.2.1'' ''1.2''"
  using compareSemver_not_antisymmetric by simp

section \<open>Checking entries\<close>

lemma fold_store_member_name:
  "\<forall>v. (k, v) \<in> set members \<longrightarrow> v = JNull \<Longrightarrow> m k = None \<Longrightarrow>
   fold store_member members m k = None"
proof (induction members arbitrary: m)
  case Nil
  then show ?case by simp
next
  case (Cons kv members)
  obtain k' v' where kv: "kv = (k', v')" by (cases kv)
  have "store_member kv m k = None"
  proof (cases "k' = k")
    case True
    with Cons.prems(1) kv have "v' = JNull" by simp
    with True kv show ?thesis by (simp add: store_member_def)
  next
    case False
    with Cons.prems(2) kv show ?thesis by (simp add: store_member_def split: json.splits)
  qed
  with Cons.IH [of "store_member kv m"] Cons.prems(1) show ?case by simp
qed

text \<open>
  C9: for an entry without a raw URL whose repository reference parses, when the
  lookup answers with a JSON object in which \<open>name\<close> is missing or null,
  \<open>checkEntry\<close> returns the "latest release undefined" message and no error, and
  the only effect is the lookup: no comparison is made.
\<close>

theorem checkEntry_no_release_name:
  assumes "URL e = []" and "parseRepo (Repo e) = Inr (owner, gitrepo)"
    and "get tr (release_url owner gitrepo) = Body (JSON (JObject members))"
    and "\<forall>v. (''name'', v) \<in> set members \<longrightarrow> v = JNull"
  shows "checkEntry get tr e =
    (Inr (Unverifiable (Repo e)), tr @ [Lookup (release_url owner gitrepo)])"
proof -
  have "fold store_member members Map.empty ''name'' = None"
    using assms(4) by (intro fold_store_member_name) simp_all
  with assms(1-3) show ?thesis
    by (simp add: checkEntry_def Let_def Unmarshal_map_def)
qed

theorem checkEntry_no_release_name_witness:
  "checkEntry (\<lambda>tr url. Body (JSON (JObject [(''id'', JNumber ''7''), (''name'', JNull)]))) []
     \<lparr>Repo = ''github.com/foo/bar'', Tag = ''1.0.0'', URL = ''''\<rparr>
   = (Inr (Unverifiable ''github.com/foo/bar''),
      [Lookup ''https://api.github.com/repos/foo/bar/releases/latest''])"
proof -
  let ?e = "\<lparr>Repo = ''github.com/foo/bar'', Tag = ''1.0.0'', URL = ''''\<rparr>"
  let ?get = "\<lambda>(tr :: event list) (url :: string).
    Body (JSON (JObject [(''id'', JNumber ''7''), (''name'', JNull)]))"
  have 1: "URL ?e = []" by simp
  have 2: "parseRepo (Repo ?e) = Inr (''foo'', ''bar'')"
    by (simp add: parseRepo_def repoRE_FindStringSubmatch_def rune_width_def not_slash_def Let_def)
  have 3: "?get [] (release_url ''foo'' ''bar'')
             = Body (JSON (JObject [(''id'', JNumber ''7''), (''name'', JNull)]))" by simp
  have 4: "\<forall>v. (''name'', v) \<in> set [(''id'', JNumber ''7''), (''name'', JNull)] \<longrightarrow> v = JNull"
    by simp
  from checkEntry_no_release_name [of ?e "''foo''" "''bar''" ?get "[]", OF 1 2 3 4]
  show ?thesis by (simp add: release_url_def)
qed

text \<open>
  C1: the code at the scenario of the claim. The pinned tag is \<open>1.0.0\<close> and the
  release named by the response is \<open>1.1.0\<close>, yet the tag that is compared is the
  empty string, and the entry is reported up to date.
\<close>

theorem checkEntry_newer_release_reported_up_to_date:
  "checkEntry (\<lambda>tr url. Body (JSON (JObject [(''name'', JString ''1.1.0'')]))) []
     \<lparr>Repo = ''github.com/foo/bar'', Tag = ''1.0.0'', URL = ''''\<rparr>
   = (Inr (UpToDate ''github.com/foo/bar''),
      [Lookup ''https://api.github.com/repos/foo/bar/releases/latest'',
       Compare ''1.0.0'' ''''])"
  by (simp add: entry_eval semver_eval)

theorem checkEntry_newer_release_reported_up_to_date_witness:
  "fst (checkEntry (\<lambda>tr url. Body (JSON (JObject [(''name'', JString ''1.1.0'')]))) []
     \<lparr>Repo = ''github.com/foo/bar'', Tag = ''1.0.0'', URL = ''''\<rparr>)
   \<noteq> Inr (Outdated ''github.com/foo/bar'' ''1.0.0'' ''1.1.0'')"
  using checkEntry_newer_release_reported_up_to_date by simp

lemma compare_loop_Nil_nonneg:
  "list_all (\<lambda>x. 0 \<le> x) as \<Longrightarrow> 0 \<le> compare_loop i as []"
  by (induction as arbitrary: i) auto

lemma mkSemver_empty: "mkSemver [] = ([], None)"
  by (simp add: semver_eval)

lemma compareSemver_empty_tag: "compareSemver t [] = Inr rel \<Longrightarrow> 0 \<le> rel"
  using mkSemver_nonneg [of t] compare_loop_Nil_nonneg [of "fst (mkSemver t)" 0]
  by (auto simp: compareSemver_def compare_vectors_def mkSemver_empty
      split: prod.splits if_splits)

text \<open>
  The variable \<open>tag\<close> is never assigned, so the comparison is always against the
  empty string, whose vector is empty: the result is never negative and no entry is
  ever reported outdated.
\<close>

lemma checkEntry_never_Outdated:
  "fst (checkEntry get tr e) \<noteq> Inr (Outdated r h l)"
  using compareSemver_empty_tag [of "Tag e"]
  by (auto simp: checkEntry_def Let_def Unmarshal_by_value_def
      split: sum.splits prod.splits http_result.splits option.splits)

lemma checkNewer_loop_stops:
  "checkNewer_loop get tr pre acc = ((msgs, None), tr1) \<Longrightarrow>
   checkEntry get tr1 e = (Inl err, tr2) \<Longrightarrow>
   checkNewer_loop get tr (pre @ e # post) acc = ((msgs, Some err), tr2)"
proof (induction pre arbitrary: tr acc)
  case Nil
  then show ?case by simp
next
  case (Cons a pre)
  obtain r tr' where step: "checkEntry get tr a = (r, tr')" by (cases "checkEntry get tr a")
  show ?case
  proof (cases r)
    case (Inl x)
    with step Cons.prems(1) show ?thesis by simp
  next
    case (Inr m)
    with step Cons.prems(1) have "checkNewer_loop get tr' pre (acc @ [m]) = ((msgs, None), tr1)"
      by simp
    from Cons.IH [OF this Cons.prems(2)] step Inr show ?thesis by simp
  qed
qed

lemma checkNewer_loop_messages:
  "checkNewer_loop get tr pre acc = ((msgs, None), tr1) \<Longrightarrow>
   \<exists>ms. msgs = acc @ ms \<and>
         list_all2 (\<lambda>e m. \<exists>t t'. checkEntry get t e = (Inr m, t')) pre ms"
proof (induction pre arbitrary: tr acc)
  case Nil
  then show ?case by simp
next
  case (Cons a pre)
  obtain r tr' where step: "checkEntry get tr a = (r, tr')" by (cases "checkEntry get tr a")
  show ?case
  proof (cases r)
    case (Inl x)
    with step Cons.prems show ?thesis by simp
  next
    case (Inr m)
    with step Cons.prems have "checkNewer_loop get tr' pre (acc @ [m]) = ((msgs, None), tr1)"
      by simp
    from Cons.IH [OF this] obtain ms where
      ms: "msgs = (acc @ [m]) @ ms"
        "list_all2 (\<lambda>e m. \<exists>t t'. checkEntry get t e = (Inr m, t')) pre ms"
      by blast
    from step Inr have "\<exists>t t'. checkEntry get t a = (Inr m, t')" by blast
    with ms have "msgs = acc @ (m # ms) \<and>
      list_all2 (\<lambda>e m. \<exists>t t'. checkEntry get t e = (Inr m, t')) (a # pre) (m # ms)"
      by simp
    then show ?thesis by blast
  qed
qed

text \<open>
  C8: if the entries before index \<open>i\<close> are checked without error, giving the messages
  \<open>msgs\<close>, and the entry at \<open>i\<close> then fails with \<open>err\<close>, \<open>checkNewer\<close> returns
  \<open>msgs\<close> with \<open>err\<close>; each of \<open>msgs\<close> is the message of the entry at its position;
  and the trace is the one left by entry \<open>i\<close>, so nothing after it is looked up.
\<close>

theorem checkNewer_stops_at_first_error:
  assumes "i < length (Sources config)"
    and "checkNewer get tr \<lparr>Sources = take i (Sources config)\<rparr> = ((msgs, None), tr1)"
    and "checkEntry get tr1 (Sources config ! i) = (Inl err, tr2)"
  shows "checkNewer get tr config = ((msgs, Some err), tr2) \<and>
         list_all2 (\<lambda>e m. \<exists>t t'. checkEntry get t e = (Inr m, t')) (take i (Sources config)) msgs"
proof -
  have split: "Sources config = take i (Sources config) @ Sources config ! i # drop (Suc i) (Sources config)"
    using assms(1) by (simp add: id_take_nth_drop [symmetric])
  from assms(2) have pre: "checkNewer_loop get tr (take i (Sources config)) [] = ((msgs, None), tr1)"
    by (simp add: checkNewer_def)
  from checkNewer_loop_stops [OF pre assms(3), of "drop (Suc i) (Sources config)"] split
  have "checkNewer get tr config = ((msgs, Some err), tr2)"
    by (simp add: checkNewer_def)
  moreover from checkNewer_loop_messages [OF pre]
  have "list_all2 (\<lambda>e m. \<exists>t t'. checkEntry get t e = (Inr m, t')) (take i (Sources config)) msgs"
    by simp
  ultimately show ?thesis by simp
qed

theorem checkNewer_stops_at_first_error_witness:
  "checkNewer (\<lambda>tr url. Body (JSON (JObject [(''name'', JNull)]))) []
     \<lparr>Sources = [\<lparr>Repo = ''github.com/foo/bar'', Tag = ''1.0.0'', URL = ''''\<rparr>,
                 \<lparr>Repo = ''not-a-repo-string'', Tag = ''1'', URL = ''''\<rparr>,
                 \<lparr>Repo = ''github.com/baz/qux'', Tag = ''2.0'', URL = ''''\<rparr>]\<rparr>
   = (([Unverifiable ''github.com/foo/bar''],
       Some (RepoParseError ''not-a-repo-string'' [])),
      [Lookup ''https://api.github.com/repos/foo/bar/releases/latest''])"
proof -
  let ?get = "\<lambda>(tr :: event list) (url :: string). Body (JSON (JObject [(''name'', JNull)]))"
  let ?cfg = "\<lparr>Sources = [\<lparr>Repo = ''github.com/foo/bar'', Tag = ''1.0.0'', URL = ''''\<rparr>,
                 \<lparr>Repo = ''not-a-repo-string'', Tag = ''1'', URL = ''''\<rparr>,
                 \<lparr>Repo = ''github.com/baz/qux'', Tag = ''2.0'', URL = ''''\<rparr>]\<rparr>"
  let ?tr = "[Lookup ''https://api.github.com/repos/foo/bar/releases/latest'']"
  have 1: "1 < length (Sources ?cfg)" by simp
  have 2: "checkNewer ?get [] \<lparr>Sources = take 1 (Sources ?cfg)\<rparr>
             = (([Unverifiable ''github.com/foo/bar''], None), ?tr)"
    by (simp add: checkNewer_def entry_eval)
  have 3: "checkEntry ?get ?tr (Sources ?cfg ! 1)
             = (Inl (RepoParseError ''not-a-repo-string'' []), ?tr)"
    by (simp add: entry_eval)
  from checkNewer_stops_at_first_error [OF 1 2 3] show ?thesis by simp
qed

section \<open>Validation and discovery\<close>

lemma validateConfig_loop_None_iff:
  "validateConfig_loop es = None \<longleftrightarrow>
     (\<forall>e\<in>set es. \<not> (URL e \<noteq> [] \<and> Repo e \<noteq> []) \<and> (Repo e \<noteq> [] \<longrightarrow> Tag e \<noteq> []))"
  by (induction es) auto

text \<open>
  C4, as amended: \<open>validateConfig\<close> returns no error exactly when no entry has both
  \<open>URL\<close> and \<open>Repo\<close> set and every entry with \<open>Repo\<close> set has a non-empty \<open>Tag\<close>.
  So an accepted entry has at most one of the two set.
\<close>

theorem validateConfig_accepts:
  "validateConfig config = None \<longleftrightarrow>
     (\<forall>e\<in>set (Sources config).
        \<not> (URL e \<noteq> [] \<and> Repo e \<noteq> []) \<and> (Repo e \<noteq> [] \<longrightarrow> Tag e \<noteq> []))"
  unfolding validateConfig_def by (rule validateConfig_loop_None_iff)

theorem validateConfig_accepts_witness:
  "validateConfig \<lparr>Sources = [\<lparr>Repo = ''github.com/foo/bar'', Tag = ''1.0.0'', URL = ''''\<rparr>,
                               \<lparr>Repo = '''', Tag = '''', URL = ''https://example.com/a.tgz''\<rparr>]\<rparr> = None"
proof -
  let ?cfg = "\<lparr>Sources = [\<lparr>Repo = ''github.com/foo/bar'', Tag = ''1.0.0'', URL = ''''\<rparr>,
                          \<lparr>Repo = '''', Tag = '''', URL = ''https://example.com/a.tgz''\<rparr>]\<rparr>"
  have "\<forall>e\<in>set (Sources ?cfg).
          \<not> (URL e \<noteq> [] \<and> Repo e \<noteq> []) \<and> (Repo e \<noteq> [] \<longrightarrow> Tag e \<noteq> [])"
    by simp
  then show ?thesis by (rule validateConfig_accepts [THEN iffD2])
qed

text \<open>
  An entry with neither \<open>Repo\<close> nor \<open>URL\<close> is accepted, so "exactly one" does not
  follow from validation.
\<close>

theorem validateConfig_neither_counterexample:
  "validateConfig \<lparr>Sources = [\<lparr>Repo = '''', Tag = '''', URL = ''''\<rparr>]\<rparr> = None \<and>
   \<not> (\<forall>e\<in>set (Sources \<lparr>Sources = [\<lparr>Repo = '''', Tag = '''', URL = ''''\<rparr>]\<rparr>).
         (Repo e \<noteq> [] \<and> URL e = []) \<or> (Repo e = [] \<and> URL e \<noteq> []))"
  by (simp add: validateConfig_def)

lemma walk_no_errors:
  "\<forall>v\<in>set calls. verr v = None \<and> vinfo v \<noteq> None \<Longrightarrow>
   walk calls ms =
     Inr (ms @ map vpath (filter (\<lambda>v. HasSuffix (vpath v) manifestName \<and> vinfo v = Some False) calls))"
  by (induction calls arbitrary: ms) (auto simp: visit_def)

lemma walk_returns:
  "walk calls ms = Inr out \<Longrightarrow>
   out = ms @ map vpath (filter (\<lambda>v. HasSuffix (vpath v) manifestName \<and> vinfo v = Some False) calls)"
proof (induction calls arbitrary: ms)
  case Nil
  then show ?case by simp
next
  case (Cons v calls)
  from Cons.prems obtain ms' where v: "visit ms v = Inr (ms', None)"
    and rest: "walk calls ms' = Inr out"
    by (auto split: sum.splits option.splits)
  from v have "ms' = ms @ map vpath (filter (\<lambda>v. HasSuffix (vpath v) manifestName \<and> vinfo v = Some False) [v])"
    by (auto simp: visit_def split: if_splits option.splits)
  with Cons.IH [OF rest] show ?case by simp
qed

text \<open>
  C6, as amended: when \<open>searchForManifests\<close> returns, it returns, in the order of the
  walk, exactly the visited paths that are not directories and that end with the
  manifest name; and it does return when no visit carries an error or a nil
  \<open>FileInfo\<close>.
\<close>

theorem searchForManifests_suffix:
  "(searchForManifests calls = Inr out \<longrightarrow>
      out = map vpath
              (filter (\<lambda>v. HasSuffix (vpath v) manifestName \<and> vinfo v = Some False) calls)) \<and>
   ((\<forall>v\<in>set calls. verr v = None \<and> vinfo v \<noteq> None) \<longrightarrow>
      searchForManifests calls =
        Inr (map vpath
               (filter (\<lambda>v. HasSuffix (vpath v) manifestName \<and> vinfo v = Some False) calls)))"
  unfolding searchForManifests_def
  using walk_returns [of calls "[]" out] walk_no_errors [of calls "[]"] by simp

theorem searchForManifests_suffix_witness:
  "searchForManifests
     [\<lparr>vpath = ''pkg'', vinfo = Some True, verr = None\<rparr>,
      \<lparr>vpath = ''pkg/SOURCES'', vinfo = Some False, verr = None\<rparr>,
      \<lparr>vpath = ''pkg/main.go'', vinfo = Some False, verr = None\<rparr>] = Inr [''pkg/SOURCES'']"
  using searchForManifests_suffix
    [of "[\<lparr>vpath = ''pkg'', vinfo = Some True, verr = None\<rparr>,
          \<lparr>vpath = ''pkg/SOURCES'', vinfo = Some False, verr = None\<rparr>,
          \<lparr>vpath = ''pkg/main.go'', vinfo = Some False, verr = None\<rparr>]"]
  by (auto simp: HasSuffix_def manifestName_def)

text \<open>
  The test is \<open>HasSuffix\<close> on the whole path, so a file whose base name only ends
  with the manifest name is returned as well.
\<close>

theorem searchForManifests_basename_counterexample:
  "searchForManifests [\<lparr>vpath = ''dir/MYSOURCES'', vinfo = Some False, verr = None\<rparr>]
     = Inr [''dir/MYSOURCES''] \<and>
   Base ''dir/MYSOURCES'' = ''MYSOURCES'' \<and> ''MYSOURCES'' \<noteq> manifestName"
  by (simp add: searchForManifests_def visit_def HasSuffix_def manifestName_def Base_def
      not_slash_def)

end
